theory Spec2Isabelle
  imports Complex_Main "HOL-Library.AList"
begin

section \<open>Python values, exceptions and the \<open>int()\<close> conversion\<close>

text \<open>
  The exceptions that the module raises itself or lets pass through. \<open>CallbackError\<close>
  stands for any exception raised by a caller-supplied callback.
\<close>

datatype exception =
    AssertionError
  | KeyError
  | ValueError
  | TypeError
  | NotImplementedError
  | CancelledError
  | TimeoutError
  | AttributeError
  | CallbackError string

text \<open>
  The values that can be stored in the keyword-argument bag \<open>**kwargs\<close>. The bag is
  untyped in the source; the model covers \<open>None\<close>, booleans, integers and strings.
\<close>

datatype pyval = PyNone | PyBool bool | PyInt int | PyStr string

definition isdigit :: "char \<Rightarrow> bool" where
  "isdigit c = (48 \<le> (of_char c :: nat) \<and> (of_char c :: nat) \<le> 57)"

definition isspace :: "char \<Rightarrow> bool" where
  "isspace c = ((9 \<le> (of_char c :: nat) \<and> (of_char c :: nat) \<le> 13)
              \<or> (of_char c :: nat) = 32)"

definition digit_value :: "char \<Rightarrow> nat" where
  "digit_value c = of_char c - 48"

text \<open>
  Decimal digits after a first digit has been read; single underscores may separate
  digits, as in Python's integer literals.
\<close>

fun digits_value :: "nat \<Rightarrow> string \<Rightarrow> nat option" where
  "digits_value acc [] = Some acc"
| "digits_value acc [c] = (if isdigit c then Some (10 * acc + digit_value c) else None)"
| "digits_value acc (c # d # cs) =
     (if isdigit c then digits_value (10 * acc + digit_value c) (d # cs)
      else if c = CHR ''_'' \<and> isdigit d then digits_value acc (d # cs)
      else None)"

definition parse_decimal :: "string \<Rightarrow> nat option" where
  "parse_decimal s =
     (case s of
        [] \<Rightarrow> None
      | c # cs \<Rightarrow> if isdigit c then digits_value (digit_value c) cs else None)"

definition strip :: "string \<Rightarrow> string" where
  "strip s = rev (dropWhile isspace (rev (dropWhile isspace s)))"

text \<open>\<open>int(s)\<close> for a string: surrounding whitespace, an optional sign, decimal digits.\<close>

definition py_int_str :: "string \<Rightarrow> exception + int" where
  "py_int_str s =
     (case strip s of
        [] \<Rightarrow> Inl ValueError
      | c # cs \<Rightarrow>
          if c = CHR ''-'' then
            (case parse_decimal cs of None \<Rightarrow> Inl ValueError | Some n \<Rightarrow> Inr (- int n))
          else if c = CHR ''+'' then
            (case parse_decimal cs of None \<Rightarrow> Inl ValueError | Some n \<Rightarrow> Inr (int n))
          else
            (case parse_decimal (c # cs) of None \<Rightarrow> Inl ValueError | Some n \<Rightarrow> Inr (int n)))"

text \<open>
  \<open>int(v)\<close>: a string that is not an integer literal raises \<open>ValueError\<close>, while
  \<open>None\<close> raises \<open>TypeError\<close>.
\<close>

fun py_int :: "pyval \<Rightarrow> exception + int" where
  "py_int PyNone = Inl TypeError"
| "py_int (PyBool b) = Inr (if b then 1 else 0)"
| "py_int (PyInt n) = Inr n"
| "py_int (PyStr s) = py_int_str s"

text \<open>\<open>d.get(k, default)\<close> on a dictionary kept as an association list.\<close>

definition dict_get :: "('k \<times> 'v) list \<Rightarrow> 'k \<Rightarrow> 'v \<Rightarrow> 'v" where
  "dict_get d k dflt = (case map_of d k of None \<Rightarrow> dflt | Some v \<Rightarrow> v)"

definition DEFAULT_MAX_CONNECTIONS :: int where
  "DEFAULT_MAX_CONNECTIONS = 10"

definition EX_KEY_MAX_CONNECTIONS :: string where
  "EX_KEY_MAX_CONNECTIONS = ''max_connections''"

definition CLEAR_SCAN_STEP :: nat where
  "CLEAR_SCAN_STEP = 1024"

section \<open>Listener tasks\<close>

text \<open>The message record handed to callbacks.\<close>

record message =
  msg_type :: string
  msg_channel :: string
  msg_pattern :: "string option"
  msg_data :: string

text \<open>
  A callback, as far as \<open>_subscribe_task\<close> looks at it: the two predicates of
  \<open>inspect\<close> that the task tests, and whether a call with a given message raises.
\<close>

record callback =
  iscoroutinefunction :: bool
  isfunction :: bool
  raises :: "message \<Rightarrow> exception option"

text \<open>
  What a listener task has done so far, in order: the results of \<open>get_message\<close>,
  the callback invocations it started, and how each invocation ended.
\<close>

datatype tev =
    Fetched "message option"
  | Invoked message
  | Completed message
  | Raised message exception

text \<open>
  The suspension points of \<open>_subscribe_task\<close>: awaiting \<open>get_message\<close> in the
  consume loop, awaiting an asynchronous callback there, the same two in the drain loop,
  and the finished task with its result.
\<close>

datatype phase =
    Consume_Fetch
  | Consume_Call message
  | Drain_Fetch
  | Drain_Call message
  | Done "exception + unit"

text \<open>
  One task running \<open>_subscribe_task(key, channel, callback, flush_remain_messages)\<close>.
  \<open>channel\<close> is the pub/sub handle: the messages received on it and not yet fetched
  (subscription confirmations are filtered out by the driver). \<open>must_cancel\<close> is the
  pending cancellation request of \<open>Task.cancel()\<close>.
\<close>

record listener =
  key :: string
  channel :: "message list"
  callback :: callback
  flush_remain_messages :: bool
  phase :: phase
  must_cancel :: bool
  trace :: "tev list"

definition is_done :: "listener \<Rightarrow> bool" where
  "is_done l = (case phase l of Done r \<Rightarrow> True | _ \<Rightarrow> False)"

text \<open>
  Lines 155-157 and the head of the second loop: when the key is in the exit set it is
  removed and the consume loop is left, either into the drain loop or, with
  \<open>flush_remain_messages\<close> off, to the end of the task.
\<close>

definition check_exit :: "string set \<Rightarrow> listener \<Rightarrow> string set \<times> listener" where
  "check_exit X l =
     (if key l \<in> X
      then (X - {key l},
            l\<lparr>phase := (if flush_remain_messages l then Drain_Fetch else Done (Inr ()))\<rparr>)
      else (X, l\<lparr>phase := Consume_Fetch\<rparr>))"

text \<open>
  One run of the task from a suspension point to the next one. A pending cancellation is
  raised at the suspension point.

  Modelled from the spec: the pub/sub handle's
  \<open>GET_MESSAGE(ignore_subscribe_messages, timeout?) -> message|none\<close>, which belongs
  to the store driver and not to this module. It yields the oldest unfetched message, or
  \<open>None\<close> when there is none (after the poll interval in the consume loop, at once
  in the drain loop).
\<close>

definition subscribe_task_step :: "string set \<Rightarrow> listener \<Rightarrow> string set \<times> listener" where
  "subscribe_task_step X l =
     (case phase l of
        Done r \<Rightarrow> (X, l)
      | Consume_Fetch \<Rightarrow>
          if must_cancel l then (X, l\<lparr>phase := Done (Inl CancelledError), must_cancel := False\<rparr>)
          else
            (case channel l of
               [] \<Rightarrow> check_exit X (l\<lparr>trace := trace l @ [Fetched None]\<rparr>)
             | m # ms \<Rightarrow>
                 if iscoroutinefunction (callback l) then
                   (X, l\<lparr>channel := ms, trace := trace l @ [Fetched (Some m), Invoked m],
                          phase := Consume_Call m\<rparr>)
                 else if isfunction (callback l) then
                   (case raises (callback l) m of
                      None \<Rightarrow>
                        check_exit X
                          (l\<lparr>channel := ms,
                             trace := trace l @ [Fetched (Some m), Invoked m, Completed m]\<rparr>)
                    | Some e \<Rightarrow>
                        (X, l\<lparr>channel := ms,
                               trace := trace l @ [Fetched (Some m), Invoked m, Raised m e],
                               phase := Done (Inl e)\<rparr>))
                 else
                   (X, l\<lparr>channel := ms, trace := trace l @ [Fetched (Some m)],
                          phase := Done (Inl NotImplementedError)\<rparr>))
      | Consume_Call m \<Rightarrow>
          if must_cancel l then
            (X, l\<lparr>trace := trace l @ [Raised m CancelledError],
                   phase := Done (Inl CancelledError), must_cancel := False\<rparr>)
          else
            (case raises (callback l) m of
               None \<Rightarrow> check_exit X (l\<lparr>trace := trace l @ [Completed m]\<rparr>)
             | Some e \<Rightarrow> (X, l\<lparr>trace := trace l @ [Raised m e], phase := Done (Inl e)\<rparr>))
      | Drain_Fetch \<Rightarrow>
          if must_cancel l then (X, l\<lparr>phase := Done (Inl CancelledError), must_cancel := False\<rparr>)
          else
            (case channel l of
               [] \<Rightarrow> (X, l\<lparr>trace := trace l @ [Fetched None], phase := Done (Inr ())\<rparr>)
             | m # ms \<Rightarrow>
                 if iscoroutinefunction (callback l) then
                   (X, l\<lparr>channel := ms, trace := trace l @ [Fetched (Some m), Invoked m],
                          phase := Drain_Call m\<rparr>)
                 else if isfunction (callback l) then
                   (case raises (callback l) m of
                      None \<Rightarrow>
                        (X, l\<lparr>channel := ms,
                               trace := trace l @ [Fetched (Some m), Invoked m, Completed m],
                               phase := Drain_Fetch\<rparr>)
                    | Some e \<Rightarrow>
                        (X, l\<lparr>channel := ms,
                               trace := trace l @ [Fetched (Some m), Invoked m, Raised m e],
                               phase := Done (Inl e)\<rparr>))
                 else
                   (X, l\<lparr>channel := ms, trace := trace l @ [Fetched (Some m)],
                          phase := Done (Inl NotImplementedError)\<rparr>))
      | Drain_Call m \<Rightarrow>
          if must_cancel l then
            (X, l\<lparr>trace := trace l @ [Raised m CancelledError],
                   phase := Done (Inl CancelledError), must_cancel := False\<rparr>)
          else
            (case raises (callback l) m of
               None \<Rightarrow> (X, l\<lparr>trace := trace l @ [Completed m], phase := Drain_Fetch\<rparr>)
             | Some e \<Rightarrow> (X, l\<lparr>trace := trace l @ [Raised m e], phase := Done (Inl e)\<rparr>)))"

text \<open>The task as \<open>create_task\<close> leaves it: not yet run, nothing received.\<close>

definition new_listener :: "string \<Rightarrow> callback \<Rightarrow> bool \<Rightarrow> listener" where
  "new_listener k cb flush =
     \<lparr>key = k, channel = [], callback = cb, flush_remain_messages = flush,
      phase = Consume_Fetch, must_cancel = False, trace = []\<rparr>"

text \<open>
  What can happen to one listener task: it is resumed while the exit-request set has some
  content, a message is received on its channel, or its cancellation is requested.
\<close>

datatype levent = L_Resume "string set" | L_Arrive message | L_Cancel

definition receive :: "message \<Rightarrow> listener \<Rightarrow> listener" where
  "receive m l = l\<lparr>channel := channel l @ [m]\<rparr>"

text \<open>\<open>Task.cancel()\<close>: refused on a finished task, otherwise recorded as pending.\<close>

definition cancel :: "listener \<Rightarrow> bool \<times> listener" where
  "cancel l = (if is_done l then (False, l) else (True, l\<lparr>must_cancel := True\<rparr>))"

fun listener_event :: "levent \<Rightarrow> listener \<Rightarrow> listener" where
  "listener_event (L_Resume X) l = snd (subscribe_task_step X l)"
| "listener_event (L_Arrive m) l = receive m l"
| "listener_event L_Cancel l = snd (cancel l)"

definition listener_run :: "levent list \<Rightarrow> listener \<Rightarrow> listener" where
  "listener_run evs l = fold listener_event evs l"

text \<open>
  Readings of a trace: the messages that \<open>get_message\<close> returned, the messages the
  callback was invoked with, and the messages for which the invocation returned.
\<close>

fun fetched :: "tev list \<Rightarrow> message list" where
  "fetched [] = []"
| "fetched (Fetched (Some m) # es) = m # fetched es"
| "fetched (e # es) = fetched es"

fun invoked :: "tev list \<Rightarrow> message list" where
  "invoked [] = []"
| "invoked (Invoked m # es) = m # invoked es"
| "invoked (e # es) = invoked es"

fun completed :: "tev list \<Rightarrow> message list" where
  "completed [] = []"
| "completed (Completed m # es) = m # completed es"
| "completed (e # es) = completed es"

text \<open>The messages received on the channel during a run, in order of receipt.\<close>

fun arrivals :: "levent list \<Rightarrow> message list" where
  "arrivals [] = []"
| "arrivals (L_Arrive m # evs) = m # arrivals evs"
| "arrivals (e # evs) = arrivals evs"

text \<open>
  Single-flight delivery, as an automaton over the trace. A fetch is allowed only while no
  invocation is in flight; an invocation only for the message just fetched; the invocation
  in flight ends by returning or raising. Anything else breaks the discipline.
\<close>

datatype flight = Idle | Got message | Busy message | Broken

fun flight_step :: "flight \<Rightarrow> tev \<Rightarrow> flight" where
  "flight_step Idle (Fetched None) = Idle"
| "flight_step Idle (Fetched (Some m)) = Got m"
| "flight_step (Got m) (Invoked m') = (if m' = m then Busy m else Broken)"
| "flight_step (Busy m) (Completed m') = (if m' = m then Idle else Broken)"
| "flight_step (Busy m) (Raised m' e) = (if m' = m then Idle else Broken)"
| "flight_step f e = Broken"

definition single_flight :: "tev list \<Rightarrow> bool" where
  "single_flight es = (foldl flight_step Idle es \<noteq> Broken)"

text \<open>
  The messages a task holds and has not finished delivering: the one whose invocation is
  in flight, then the unfetched ones.
\<close>

definition pending :: "listener \<Rightarrow> message list" where
  "pending l =
     (case phase l of
        Consume_Call m \<Rightarrow> m # channel l
      | Drain_Call m \<Rightarrow> m # channel l
      | _ \<Rightarrow> channel l)"

text \<open>
  The task resumed \<open>n\<close> times in a row, nothing else touching the exit set or the
  channel in between.
\<close>

fun resumes :: "nat \<Rightarrow> string set \<times> listener \<Rightarrow> string set \<times> listener" where
  "resumes 0 s = s"
| "resumes (Suc n) s = resumes n (subscribe_task_step (fst s) (snd s))"

text \<open>
  The invariant behind single-flight delivery, for a task that has received the messages
  \<open>arr\<close>: what was fetched and what is still unfetched make up \<open>arr\<close>; at a
  suspension in \<open>get_message\<close> nothing is in flight and every fetched message has been
  handed to the callback; at a suspension in the callback exactly that message is in
  flight; a finished task has kept the discipline and has handed over every fetched
  message but possibly the last.
\<close>

definition listener_inv :: "message list \<Rightarrow> listener \<Rightarrow> bool" where
  "listener_inv arr l =
     (fetched (trace l) @ channel l = arr
      \<and> (case phase l of
            Consume_Fetch \<Rightarrow>
              foldl flight_step Idle (trace l) = Idle \<and> invoked (trace l) = fetched (trace l)
          | Drain_Fetch \<Rightarrow>
              foldl flight_step Idle (trace l) = Idle \<and> invoked (trace l) = fetched (trace l)
          | Consume_Call m \<Rightarrow>
              foldl flight_step Idle (trace l) = Busy m \<and> invoked (trace l) = fetched (trace l)
          | Drain_Call m \<Rightarrow>
              foldl flight_step Idle (trace l) = Busy m \<and> invoked (trace l) = fetched (trace l)
          | Done r \<Rightarrow>
              foldl flight_step Idle (trace l) \<noteq> Broken
              \<and> (invoked (trace l) = fetched (trace l)
                  \<or> (\<exists>m. fetched (trace l) = invoked (trace l) @ [m]))))"

text \<open>
  The invariant of a task whose callback is neither a coroutine function nor a function:
  the callback is never invoked, and once a message has been fetched the task has failed
  with \<open>NotImplementedError\<close>.
\<close>

definition unsupported_inv :: "listener \<Rightarrow> bool" where
  "unsupported_inv l =
     (\<not> iscoroutinefunction (callback l) \<and> \<not> isfunction (callback l)
      \<and> invoked (trace l) = []
      \<and> (fetched (trace l) \<noteq> [] \<longrightarrow> phase l = Done (Inl NotImplementedError)))"

section \<open>The client\<close>

text \<open>The pool that \<open>open\<close> builds from the connection parameters.\<close>

record connection_pool =
  pool_host :: string
  pool_port :: int
  password :: "string option"
  max_connections :: int

text \<open>
  The fields of \<open>RedisCache\<close>, without their leading underscore. Task handles are
  positions in \<open>loop_tasks\<close>, the tasks that \<open>create_task\<close> has handed to the event
  loop: a task lives on there when the registry no longer names it. \<open>released\<close> lists the
  pools on which the driver's \<open>close()\<close> has been awaited.
\<close>

record redis_cache =
  host :: string
  port :: int
  pw :: "string option"
  prefix :: string
  kwargs :: "(string \<times> pyval) list"
  redis :: "connection_pool option"
  subscribes :: "(string \<times> nat) list"
  subscribes_tick :: real
  subscribes_exit :: "string set"
  subscribes_close_timeout :: real
  loop_tasks :: "listener list"
  released :: "connection_pool list"

text \<open>\<open>RedisCache.__init__\<close>: a missing or empty prefix becomes the empty string.\<close>

definition RedisCache ::
  "string \<Rightarrow> int \<Rightarrow> string option \<Rightarrow> string option \<Rightarrow> (string \<times> pyval) list \<Rightarrow> redis_cache" where
  "RedisCache h p pass pre kw =
     \<lparr>host = h, port = p, pw = pass,
      prefix = (case pre of None \<Rightarrow> [] | Some x \<Rightarrow> if x = [] then [] else x),
      kwargs = kw, redis = None, subscribes = [], subscribes_tick = 1,
      subscribes_exit = {}, subscribes_close_timeout = 5,
      loop_tasks = [], released = []\<rparr>"

text \<open>
  \<open>_get_max_connections\<close>: only \<open>ValueError\<close> is caught; any other exception of
  \<open>int()\<close> leaves the method.
\<close>

definition get_max_connections :: "redis_cache \<Rightarrow> int \<Rightarrow> exception + int" where
  "get_max_connections c default_value =
     (case py_int (dict_get (kwargs c) EX_KEY_MAX_CONNECTIONS (PyInt default_value)) of
        Inr n \<Rightarrow> Inr n
      | Inl e \<Rightarrow> if e = ValueError then Inr default_value else Inl e)"

definition is_open :: "redis_cache \<Rightarrow> bool" where
  "is_open c = (redis c \<noteq> None)"

definition open_connection :: "redis_cache \<Rightarrow> exception + redis_cache" where
  "open_connection c =
     (case get_max_connections c DEFAULT_MAX_CONNECTIONS of
        Inl e \<Rightarrow> Inl e
      | Inr n \<Rightarrow>
          Inr (c\<lparr>redis :=
                 Some \<lparr>pool_host = host c, pool_port = port c,
                       password = (case pw c of None \<Rightarrow> None
                                   | Some x \<Rightarrow> if x = [] then None else Some x),
                       max_connections = n\<rparr>\<rparr>))"

section \<open>Subscription manager\<close>

definition task_at :: "redis_cache \<Rightarrow> nat \<Rightarrow> listener option" where
  "task_at c t = (if t < length (loop_tasks c) then Some (loop_tasks c ! t) else None)"

text \<open>
  \<open>subscribe\<close>: the \<open>redis\<close> property asserts an open connection; the new task is
  stored under the channel, replacing the handle of an earlier subscription to it.
\<close>

definition subscribe :: "string \<Rightarrow> callback \<Rightarrow> redis_cache \<Rightarrow> (exception + unit) \<times> redis_cache" where
  "subscribe ch cb c =
     (if redis c = None then (Inl AssertionError, c)
      else (Inr (),
            c\<lparr>loop_tasks := loop_tasks c @ [new_listener ch cb True],
              subscribes := AList.update ch (length (loop_tasks c)) (subscribes c)\<rparr>))"

definition get_subscribe_channels :: "redis_cache \<Rightarrow> string list" where
  "get_subscribe_channels c = map fst (subscribes c)"

definition get_subscribe_task :: "string \<Rightarrow> redis_cache \<Rightarrow> exception + nat" where
  "get_subscribe_task ch c =
     (case map_of (subscribes c) ch of None \<Rightarrow> Inl KeyError | Some t \<Rightarrow> Inr t)"

text \<open>\<open>task.cancel()\<close> on the task with handle \<open>t\<close>.\<close>

definition cancel_task :: "nat \<Rightarrow> redis_cache \<Rightarrow> bool \<times> redis_cache" where
  "cancel_task t c =
     (case task_at c t of
        None \<Rightarrow> (False, c)
      | Some l \<Rightarrow> (fst (cancel l), c\<lparr>loop_tasks := (loop_tasks c)[t := snd (cancel l)]\<rparr>))"

definition cancel_subscribe_task :: "string \<Rightarrow> redis_cache \<Rightarrow> (exception + bool) \<times> redis_cache" where
  "cancel_subscribe_task ch c =
     (case map_of (subscribes c) ch of
        None \<Rightarrow> (Inl KeyError, c)
      | Some t \<Rightarrow> (Inr (fst (cancel_task t c)), snd (cancel_task t c)))"

definition exit_flag_subscribe :: "string \<Rightarrow> redis_cache \<Rightarrow> redis_cache" where
  "exit_flag_subscribe ch c = c\<lparr>subscribes_exit := insert ch (subscribes_exit c)\<rparr>"

definition exit_flag_subscribes :: "redis_cache \<Rightarrow> redis_cache" where
  "exit_flag_subscribes c = fold exit_flag_subscribe (map fst (subscribes c)) c"

text \<open>
  What happens while a caller is suspended in an \<open>await\<close>: a listener task is resumed,
  a message is received on a task's channel, or the timer of an enclosing
  \<open>async_timeout\<close> block expires.
\<close>

datatype wake = Resume nat | Arrive nat message | Timer

fun wake_step :: "wake \<Rightarrow> redis_cache \<Rightarrow> redis_cache" where
  "wake_step (Resume t) c =
     (case task_at c t of
        None \<Rightarrow> c
      | Some l \<Rightarrow>
          c\<lparr>subscribes_exit := fst (subscribe_task_step (subscribes_exit c) l),
            loop_tasks := (loop_tasks c)[t := snd (subscribe_task_step (subscribes_exit c) l)]\<rparr>)"
| "wake_step (Arrive t m) c =
     (case task_at c t of
        None \<Rightarrow> c
      | Some l \<Rightarrow> c\<lparr>loop_tasks := (loop_tasks c)[t := receive m l]\<rparr>)"
| "wake_step Timer c = c"

text \<open>
  The result of a finished task, as \<open>await task\<close> yields or raises it; \<open>None\<close> while
  the task is still running.
\<close>

definition task_result :: "redis_cache \<Rightarrow> nat \<Rightarrow> (exception + unit) option" where
  "task_result c t =
     (case task_at c t of
        None \<Rightarrow> None
      | Some l \<Rightarrow> (case phase l of Done r \<Rightarrow> Some r | _ \<Rightarrow> None))"

text \<open>
  \<open>for task in tasks: await task\<close>, run against what happens while the caller is
  suspended. A finished task is passed at once, or raises its exception. At a running
  task the caller is suspended: the next happening is taken; when \<open>timed\<close> the expiry
  of the timer raises \<open>TimeoutError\<close> there. The result is \<open>None\<close> when the
  happenings end with the caller still suspended.
\<close>

fun await_all :: "bool \<Rightarrow> nat list \<Rightarrow> wake list \<Rightarrow> redis_cache \<Rightarrow> (exception + unit) option \<times> redis_cache" where
  "await_all timed [] ws c = (Some (Inr ()), c)"
| "await_all timed (t # ts) ws c =
     (case task_result c t of
        Some (Inr u) \<Rightarrow> await_all timed ts ws c
      | Some (Inl e) \<Rightarrow> (Some (Inl e), c)
      | None \<Rightarrow>
          (case ws of
             [] \<Rightarrow> (None, c)
           | w # ws' \<Rightarrow>
               if timed \<and> w = Timer then (Some (Inl TimeoutError), c)
               else await_all timed (t # ts) ws' (wake_step w c)))"

definition cancel_all :: "nat list \<Rightarrow> redis_cache \<Rightarrow> redis_cache" where
  "cancel_all ts c = fold (\<lambda>t c'. snd (cancel_task t c')) ts c"

text \<open>
  Every handle in the registry names a task of the event loop.
\<close>

definition handles_valid :: "redis_cache \<Rightarrow> bool" where
  "handles_valid c = (\<forall>t \<in> set (map snd (subscribes c)). t < length (loop_tasks c))"


text \<open>
  \<open>close_subscribes\<close>. The \<open>try\<close> body flags every registered channel and awaits
  the registered tasks under the timeout; \<open>except TimeoutError\<close> cancels every
  registered task; \<open>finally\<close> clears the registry and the exit set. The result is
  \<open>None\<close> while the caller is still suspended in the body, \<open>Some (Inr ())\<close> when the
  method returns and \<open>Some (Inl e)\<close> when it raises \<open>e\<close>.
\<close>

definition close_subscribes :: "wake list \<Rightarrow> redis_cache \<Rightarrow> (exception + unit) option \<times> redis_cache" where
  "close_subscribes ws c =
     (case await_all True (map snd (subscribes c)) ws
             (fold exit_flag_subscribe (map fst (subscribes c)) c) of
        (None, c') \<Rightarrow> (None, c')
      | (Some (Inr u), c') \<Rightarrow> (Some (Inr ()), c'\<lparr>subscribes := [], subscribes_exit := {}\<rparr>)
      | (Some (Inl e), c') \<Rightarrow>
          if e = TimeoutError
          then (Some (Inr ()),
                (cancel_all (map snd (subscribes c')) c')\<lparr>subscribes := [], subscribes_exit := {}\<rparr>)
          else (Some (Inl e), c'\<lparr>subscribes := [], subscribes_exit := {}\<rparr>))"

text \<open>
  \<open>close\<close>: the two assertions, the shutdown between them, then the driver's
  \<open>close()\<close> on the connection and \<open>self._redis = None\<close>.
\<close>

definition close :: "wake list \<Rightarrow> redis_cache \<Rightarrow> (exception + unit) option \<times> redis_cache" where
  "close ws c =
     (if redis c = None then (Some (Inl AssertionError), c)
      else
        (case close_subscribes ws c of
           (None, c') \<Rightarrow> (None, c')
         | (Some (Inl e), c') \<Rightarrow> (Some (Inl e), c')
         | (Some (Inr u), c') \<Rightarrow>
             if length (subscribes c') \<noteq> 0 then (Some (Inl AssertionError), c')
             else
               (case redis c' of
                  None \<Rightarrow> (Some (Inl AttributeError), c')
                | Some pool \<Rightarrow>
                    (Some (Inr ()), c'\<lparr>released := released c' @ [pool], redis := None\<rparr>))))"

definition wait_subscribe :: "string \<Rightarrow> wake list \<Rightarrow> redis_cache \<Rightarrow> (exception + unit) option \<times> redis_cache" where
  "wait_subscribe ch ws c =
     (case map_of (subscribes c) ch of
        None \<Rightarrow> (Some (Inl KeyError), c)
      | Some t \<Rightarrow> await_all False [t] ws c)"

text \<open>
  The operations that change the state of a client, and what the event loop does between
  them. An operation that suspends carries what happens while it is suspended.
\<close>

datatype event =
    Call_Open
  | Call_Subscribe string callback
  | Call_Cancel_Subscribe_Task string
  | Call_Exit_Flag_Subscribe string
  | Call_Exit_Flag_Subscribes
  | Call_Wait_Subscribe string "wake list"
  | Call_Close_Subscribes "wake list"
  | Call_Close "wake list"
  | Loop wake

fun step :: "event \<Rightarrow> redis_cache \<Rightarrow> redis_cache" where
  "step Call_Open c = (case open_connection c of Inl e \<Rightarrow> c | Inr c' \<Rightarrow> c')"
| "step (Call_Subscribe ch cb) c = snd (subscribe ch cb c)"
| "step (Call_Cancel_Subscribe_Task ch) c = snd (cancel_subscribe_task ch c)"
| "step (Call_Exit_Flag_Subscribe ch) c = exit_flag_subscribe ch c"
| "step Call_Exit_Flag_Subscribes c = exit_flag_subscribes c"
| "step (Call_Wait_Subscribe ch ws) c = snd (wait_subscribe ch ws c)"
| "step (Call_Close_Subscribes ws) c = snd (close_subscribes ws c)"
| "step (Call_Close ws) c = snd (close ws c)"
| "step (Loop w) c = wake_step w c"

definition run :: "event list \<Rightarrow> redis_cache \<Rightarrow> redis_cache" where
  "run evs c = fold step evs c"

fun is_shutdown :: "event \<Rightarrow> bool" where
  "is_shutdown (Call_Close_Subscribes ws) = True"
| "is_shutdown (Call_Close ws) = True"
| "is_shutdown ev = False"

section \<open>Key namespace and value operations\<close>

text \<open>The driver calls that the value operations delegate to.\<close>

datatype command =
    SET string string
  | MSET "(string \<times> string) list"
  | GET string
  | APPEND string string
  | EXPIRE string int
  | DELETE "string list"
  | EXISTS "string list"
  | PUBLISH string string

text \<open>
  Each operation reads the \<open>redis\<close> property first, which asserts an open connection,
  and hands the driver the prefixed keys. The dictionary comprehension of \<open>mset\<close>
  inserts the pairs one by one into a new dictionary.
\<close>

definition set_op :: "redis_cache \<Rightarrow> string \<Rightarrow> string \<Rightarrow> exception + command" where
  "set_op c k v = (if redis c = None then Inl AssertionError else Inr (SET (prefix c @ k) v))"

definition mset :: "redis_cache \<Rightarrow> (string \<times> string) list \<Rightarrow> exception + command" where
  "mset c pairs =
     (if redis c = None then Inl AssertionError
      else Inr (MSET (fold (\<lambda>(k, v) d. AList.update (prefix c @ k) v d) pairs [])))"

definition get :: "redis_cache \<Rightarrow> string \<Rightarrow> exception + command" where
  "get c k = (if redis c = None then Inl AssertionError else Inr (GET (prefix c @ k)))"

definition append_op :: "redis_cache \<Rightarrow> string \<Rightarrow> string \<Rightarrow> exception + command" where
  "append_op c k v = (if redis c = None then Inl AssertionError else Inr (APPEND (prefix c @ k) v))"

definition expire :: "redis_cache \<Rightarrow> string \<Rightarrow> int \<Rightarrow> exception + command" where
  "expire c k seconds =
     (if redis c = None then Inl AssertionError else Inr (EXPIRE (prefix c @ k) seconds))"

definition delete_op :: "redis_cache \<Rightarrow> string list \<Rightarrow> exception + command" where
  "delete_op c ks =
     (if redis c = None then Inl AssertionError else Inr (DELETE (map (\<lambda>k. prefix c @ k) ks)))"

definition exists_op :: "redis_cache \<Rightarrow> string list \<Rightarrow> exception + command" where
  "exists_op c ks =
     (if redis c = None then Inl AssertionError else Inr (EXISTS (map (\<lambda>k. prefix c @ k) ks)))"

definition publish :: "redis_cache \<Rightarrow> string \<Rightarrow> string \<Rightarrow> exception + command" where
  "publish c ch v = (if redis c = None then Inl AssertionError else Inr (PUBLISH ch v))"

section \<open>The store behind \<open>clear\<close>\<close>

text \<open>
  Modelled from the spec: the Store Driver's \<open>SCAN(cursor, pattern, count) -> (cursor, keys)\<close>
  and \<open>DELETE(keys...)\<close>, which belong to the remote store and not to this module. The
  keyspace is the table of the store in its iteration order. One scan pass examines the
  page of \<open>count\<close> entries that starts at the cursor, returns the keys of that page that
  match the pattern, and returns the cursor of the next page, or 0 after the last page.
  In a pattern \<open>*\<close> matches any run of characters and \<open>?\<close> any single character;
  every other character stands for itself (escapes and character classes are left out).
\<close>

type_synonym store = "(string \<times> string) list"

fun glob_match :: "string \<Rightarrow> string \<Rightarrow> bool" where
  "glob_match [] s = (s = [])"
| "glob_match (p # ps) [] = (p = CHR ''*'' \<and> glob_match ps [])"
| "glob_match (p # ps) (x # xs) =
     (if p = CHR ''*'' then glob_match ps (x # xs) \<or> glob_match (p # ps) xs
      else if p = CHR ''?'' then glob_match ps xs
      else p = x \<and> glob_match ps xs)"

definition redis_scan :: "store \<Rightarrow> nat \<Rightarrow> string \<Rightarrow> nat \<Rightarrow> nat \<times> string list" where
  "redis_scan st cursor pat count =
     (if length st \<le> cursor + count then 0 else cursor + count,
      filter (glob_match pat) (take count (drop cursor (map fst st))))"

definition redis_delete :: "store \<Rightarrow> string list \<Rightarrow> store" where
  "redis_delete st ks = filter (\<lambda>kv. fst kv \<notin> set ks) st"

definition redis_exists :: "store \<Rightarrow> string list \<Rightarrow> nat" where
  "redis_exists st ks = length (filter (\<lambda>k. k \<in> set (map fst st)) ks)"

lemma redis_delete_shrinks:
  assumes "snd (redis_scan st cursor pat count) \<noteq> []"
  shows "length (redis_delete st (snd (redis_scan st cursor pat count))) < length st"
proof -
  obtain k where k: "k \<in> set (snd (redis_scan st cursor pat count))"
    using assms by (cases "snd (redis_scan st cursor pat count)") auto
  then have "k \<in> set (take count (drop cursor (map fst st)))"
    by (simp add: redis_scan_def)
  then have "k \<in> set (map fst st)"
    by (meson in_set_dropD in_set_takeD)
  then obtain v where kv: "(k, v) \<in> set st"
    by auto
  have "\<not> (fst (k, v) \<notin> set (snd (redis_scan st cursor pat count)))"
    using k by simp
  with kv show ?thesis
    unfolding redis_delete_def by (rule length_filter_less)
qed

text \<open>
  \<open>clear\<close>: every pass scans from cursor 0 with the pattern \<open>prefix*\<close> and the page
  size \<open>CLEAR_SCAN_STEP\<close>; a non-empty batch is deleted and the loop repeats, an empty
  batch ends it. The cursor that the scan returns is not used.
\<close>

function clear :: "redis_cache \<Rightarrow> store \<Rightarrow> exception + store" where
  "clear c st =
     (if redis c = None then Inl AssertionError
      else if snd (redis_scan st 0 (prefix c @ ''*'') CLEAR_SCAN_STEP) \<noteq> []
      then clear c (redis_delete st (snd (redis_scan st 0 (prefix c @ ''*'') CLEAR_SCAN_STEP)))
      else Inr st)"
  by pat_completeness auto
termination
  by (relation "measure (\<lambda>(c, st). length st)") (auto simp: redis_delete_shrinks)

declare clear.simps [simp del]

section \<open>Concrete clients and stores\<close>

text \<open>The client of the test suite after \<open>open\<close>: prefix \<open>tester:\<close>, empty password.\<close>

definition tester :: redis_cache where
  "tester = step Call_Open (RedisCache ''localhost'' 6379 (Some []) (Some ''tester:'') [])"

text \<open>
  The pub/sub scenario of the test suite: a bound asynchronous method as callback, one
  message received on \<open>channel:1\<close> before the task first runs.
\<close>

definition recorder :: callback where
  "recorder = \<lparr>iscoroutinefunction = True, isfunction = False, raises = (\<lambda>m. None)\<rparr>"

definition msg1 :: message where
  "msg1 = \<lparr>msg_type = ''message'', msg_channel = ''channel:1'', msg_pattern = None,
            msg_data = ''value''\<rparr>"

definition subscribed :: redis_cache where
  "subscribed = run [Call_Subscribe ''channel:1'' recorder, Loop (Arrive 0 msg1)] tester"

text \<open>
  The same scenario with a callback that is neither a coroutine function nor a function
  (a callable object, say), after the task has fetched the message.
\<close>

definition not_a_function :: callback where
  "not_a_function = \<lparr>iscoroutinefunction = False, isfunction = False, raises = (\<lambda>m. None)\<rparr>"

definition broken :: redis_cache where
  "broken =
     run [Call_Subscribe ''channel:1'' not_a_function, Loop (Arrive 0 msg1), Loop (Resume 0)]
       tester"

text \<open>A client that was never opened.\<close>

definition unopened :: redis_cache where
  "unopened = RedisCache ''localhost'' 6379 (Some []) (Some ''tester:'') []"

text \<open>A fresh task of the pub/sub scenario with two messages received.\<close>

definition msg2 :: message where
  "msg2 = \<lparr>msg_type = ''message'', msg_channel = ''channel:1'', msg_pattern = None,
            msg_data = ''second''\<rparr>"

definition loaded :: listener where
  "loaded = listener_run [L_Arrive msg1, L_Arrive msg2] (new_listener ''channel:1'' recorder True)"

text \<open>
  A store shared with another namespace: 1024 keys \<open>other:\<close>, \<open>other:x\<close>,
  \<open>other:xx\<close>, ... come first in the table, the one key of the \<open>tester:\<close> namespace
  after them.
\<close>

definition foreign_page :: store where
  "foreign_page = map (\<lambda>n. (''other:'' @ replicate n CHR ''x'', ''v'')) [0..<1024]"

definition crowded :: store where
  "crowded = foreign_page @ [(''tester:a'', ''1'')]"

text \<open>A client whose prefix contains the pattern character \<open>?\<close>.\<close>

definition wild :: redis_cache where
  "wild = step Call_Open (RedisCache ''localhost'' 6379 None (Some ''a?'') [])"

section \<open>Properties\<close>

subsection \<open>Connection parameters\<close>

lemma tester_eq:
  "tester = (RedisCache ''localhost'' 6379 (Some []) (Some ''tester:'') [])
     \<lparr>redis := Some \<lparr>pool_host = ''localhost'', pool_port = 6379, password = None,
                       max_connections = 10\<rparr>\<rparr>"
  by (simp add: tester_def open_connection_def get_max_connections_def RedisCache_def
      dict_get_def DEFAULT_MAX_CONNECTIONS_def)

lemma tester_open: "is_open tester"
  by (simp add: tester_eq is_open_def)

lemma tester_prefix: "prefix tester = ''tester:''"
  by (simp add: tester_eq RedisCache_def)

subsection \<open>Key namespace\<close>

lemma mset_fold:
  "distinct (map fst pairs) \<Longrightarrow>
   set (map fst d) \<inter> (\<lambda>k. pre @ k) ` set (map fst pairs) = {} \<Longrightarrow>
   fold (\<lambda>(k, v) d. AList.update (pre @ k) v d) pairs d
     = d @ map (\<lambda>(k, v). (pre @ k, v)) pairs"
proof (induction pairs arbitrary: d)
  case Nil
  then show ?case by simp
next
  case (Cons a pairs)
  obtain k v where a: "a = (k, v)" by (cases a)
  have 1: "AList.update (pre @ k) v d = d @ [(pre @ k, v)]"
    using Cons.prems(2) a by (induction d) auto
  show ?case using Cons a 1 by (auto simp: image_iff)
qed

text \<open>
  C7. On an open client every key-accepting operation hands the driver the key with the
  configured prefix prepended: \<open>set\<close>, \<open>get\<close>, \<open>append\<close> and \<open>expire\<close> for their one
  key, \<open>delete\<close> and \<open>exists\<close> for each of their keys, and \<open>mset\<close> for every key of
  its dictionary (whose keys are distinct), each key keeping its value. A client built
  without a prefix has the empty prefix.
\<close>

theorem key_namespace_prefix:
  assumes "is_open c" and "distinct (map fst pairs)"
  shows "set_op c k v = Inr (SET (prefix c @ k) v)
       \<and> mset c pairs = Inr (MSET (map (\<lambda>(k, v). (prefix c @ k, v)) pairs))
       \<and> get c k = Inr (GET (prefix c @ k))
       \<and> append_op c k v = Inr (APPEND (prefix c @ k) v)
       \<and> expire c k n = Inr (EXPIRE (prefix c @ k) n)
       \<and> delete_op c ks = Inr (DELETE (map (\<lambda>k. prefix c @ k) ks))
       \<and> exists_op c ks = Inr (EXISTS (map (\<lambda>k. prefix c @ k) ks))
       \<and> prefix (RedisCache h p pass None kw) = []
       \<and> prefix (RedisCache h p pass (Some x) kw) = x"
proof -
  have "fold (\<lambda>(k, v) d. AList.update (prefix c @ k) v d) pairs []
          = [] @ map (\<lambda>(k, v). (prefix c @ k, v)) pairs"
    using assms(2) by (intro mset_fold) simp_all
  then show ?thesis
    using assms(1)
    by (simp add: is_open_def set_op_def mset_def get_def append_op_def expire_def
        delete_op_def exists_op_def RedisCache_def)
qed

theorem key_namespace_prefix_witness:
  "is_open tester \<and> distinct (map fst [(''k1'', ''v1''), (''k2'', ''v2'')])
   \<and> set_op tester ''k1'' ''v1'' = Inr (SET ''tester:k1'' ''v1'')
   \<and> mset tester [(''k1'', ''v1''), (''k2'', ''v2'')]
       = Inr (MSET [(''tester:k1'', ''v1''), (''tester:k2'', ''v2'')])
   \<and> get tester ''k1'' = Inr (GET ''tester:k1'')
   \<and> append_op tester ''k1'' ''v1'' = Inr (APPEND ''tester:k1'' ''v1'')
   \<and> expire tester ''k1'' 1 = Inr (EXPIRE ''tester:k1'' 1)
   \<and> delete_op tester [''k1'', ''k2''] = Inr (DELETE [''tester:k1'', ''tester:k2''])
   \<and> exists_op tester [''k1'', ''k2''] = Inr (EXISTS [''tester:k1'', ''tester:k2''])"
proof -
  have h1: "is_open tester"
    by (rule tester_open)
  have h2: "distinct (map fst [(''k1'', ''v1''), (''k2'', ''v2'')])"
    by simp
  show ?thesis
    using h1 h2 key_namespace_prefix [OF h1 h2, of "''k1''" "''v1''" 1 "[''k1'', ''k2'']"]
    by (simp add: tester_prefix)
qed

subsection \<open>Lookups of unknown channels\<close>

text \<open>
  C10. For a channel that is not in the subscription registry, \<open>get_subscribe_task\<close>,
  \<open>cancel_subscribe_task\<close> and \<open>wait_subscribe\<close> all raise \<open>KeyError\<close>, and the
  client, with its registry and its exit set, is left as it was.
\<close>

theorem unknown_channel_lookup_fails:
  assumes "ch \<notin> set (get_subscribe_channels c)"
  shows "get_subscribe_task ch c = Inl KeyError
       \<and> cancel_subscribe_task ch c = (Inl KeyError, c)
       \<and> wait_subscribe ch ws c = (Some (Inl KeyError), c)"
proof -
  have "map_of (subscribes c) ch = None"
    using assms by (simp add: get_subscribe_channels_def map_of_eq_None_iff)
  then show ?thesis
    by (simp add: get_subscribe_task_def cancel_subscribe_task_def wait_subscribe_def)
qed

theorem unknown_channel_lookup_fails_witness:
  "''nowhere'' \<notin> set (get_subscribe_channels tester)
   \<and> get_subscribe_task ''nowhere'' tester = Inl KeyError
   \<and> cancel_subscribe_task ''nowhere'' tester = (Inl KeyError, tester)
   \<and> wait_subscribe ''nowhere'' [Resume 0, Timer] tester = (Some (Inl KeyError), tester)"
proof -
  have h: "''nowhere'' \<notin> set (get_subscribe_channels tester)"
    by (simp add: get_subscribe_channels_def tester_eq RedisCache_def)
  show ?thesis
    using h unknown_channel_lookup_fails [OF h, of "[Resume 0, Timer]"] by simp
qed

subsection \<open>Shutdown of the subscriptions\<close>

lemma wake_step_subscribes: "subscribes (wake_step w c) = subscribes c"
  by (cases w) (auto split: option.splits)

lemma wake_step_redis: "redis (wake_step w c) = redis c"
  by (cases w) (auto split: option.splits)

lemma await_all_subscribes: "subscribes (snd (await_all timed ts ws c)) = subscribes c"
  by (induction timed ts ws c rule: await_all.induct)
    (auto simp: wake_step_subscribes split: option.splits sum.splits list.splits)

lemma await_all_redis: "redis (snd (await_all timed ts ws c)) = redis c"
  by (induction timed ts ws c rule: await_all.induct)
    (auto simp: wake_step_redis split: option.splits sum.splits list.splits)

lemma flag_fold_subscribes: "subscribes (fold exit_flag_subscribe chs c) = subscribes c"
  by (induction chs arbitrary: c) (auto simp: exit_flag_subscribe_def)

lemma flag_fold_redis: "redis (fold exit_flag_subscribe chs c) = redis c"
  by (induction chs arbitrary: c) (auto simp: exit_flag_subscribe_def)

lemma cancel_task_subscribes: "subscribes (snd (cancel_task t c)) = subscribes c"
  by (simp add: cancel_task_def split: option.splits)

lemma cancel_task_redis: "redis (snd (cancel_task t c)) = redis c"
  by (simp add: cancel_task_def split: option.splits)

lemma cancel_all_redis: "redis (cancel_all ts c) = redis c"
  unfolding cancel_all_def by (induction ts arbitrary: c) (auto simp: cancel_task_redis)

lemma close_subscribes_finished:
  "close_subscribes ws c = (Some r, c') \<Longrightarrow> subscribes c' = [] \<and> subscribes_exit c' = {}"
  by (auto simp: close_subscribes_def split: prod.splits option.splits sum.splits if_splits)

lemma close_subscribes_redis: "redis (snd (close_subscribes ws c)) = redis c"
proof -
  have "redis (snd (await_all True (map snd (subscribes c)) ws
          (fold exit_flag_subscribe (map fst (subscribes c)) c))) = redis c"
    by (simp add: await_all_redis flag_fold_redis)
  then show ?thesis
    by (auto simp: close_subscribes_def cancel_all_redis split: prod.splits option.splits sum.splits)
qed

lemma step_keeps_channels:
  "\<not> is_shutdown ev \<Longrightarrow>
   set (get_subscribe_channels c) \<subseteq> set (get_subscribe_channels (step ev c))"
proof (cases ev)
  case Call_Open
  then show ?thesis
    by (auto simp: get_subscribe_channels_def open_connection_def split: sum.splits)
next
  case (Call_Subscribe ch cb)
  then show ?thesis by (auto simp: get_subscribe_channels_def subscribe_def dom_update)
next
  case (Call_Cancel_Subscribe_Task ch)
  then show ?thesis
    by (auto simp: get_subscribe_channels_def cancel_subscribe_task_def cancel_task_subscribes
        split: option.splits)
next
  case (Call_Exit_Flag_Subscribe ch)
  then show ?thesis by (simp add: get_subscribe_channels_def exit_flag_subscribe_def)
next
  case Call_Exit_Flag_Subscribes
  then show ?thesis
    by (simp add: get_subscribe_channels_def exit_flag_subscribes_def flag_fold_subscribes)
next
  case (Call_Wait_Subscribe ch ws)
  then show ?thesis
    by (simp add: get_subscribe_channels_def wait_subscribe_def await_all_subscribes
        del: await_all.simps split: option.splits)
next
  case (Loop w)
  then show ?thesis by (simp add: get_subscribe_channels_def wake_step_subscribes)
qed simp_all

text \<open>
  C1. Whenever \<open>close_subscribes\<close> finishes, by returning or by raising, and on
  whichever path (every task awaited, the timeout, an awaited task that raises), the
  subscription registry and the exit-request set are both empty. No other operation, and
  nothing the event loop does, takes a channel out of the registry: every step that is not
  a shutdown (\<open>close_subscribes\<close>, or \<open>close\<close>, which calls it) keeps every
  registered channel.
\<close>

theorem registry_emptied_only_by_shutdown:
  "(close_subscribes ws c = (Some r, c') \<longrightarrow> subscribes c' = [] \<and> subscribes_exit c' = {})
   \<and> (\<not> is_shutdown ev \<longrightarrow>
        set (get_subscribe_channels d) \<subseteq> set (get_subscribe_channels (step ev d)))"
  using close_subscribes_finished step_keeps_channels by blast

theorem registry_emptied_only_by_shutdown_witness:
  "close_subscribes [Resume 0, Resume 0, Resume 0] subscribed
     = (Some (Inr ()), snd (close_subscribes [Resume 0, Resume 0, Resume 0] subscribed))
   \<and> get_subscribe_channels subscribed = [''channel:1'']
   \<and> subscribes (snd (close_subscribes [Resume 0, Resume 0, Resume 0] subscribed)) = []
   \<and> subscribes_exit (snd (close_subscribes [Resume 0, Resume 0, Resume 0] subscribed)) = {}
   \<and> \<not> is_shutdown (Call_Subscribe ''channel:2'' recorder)
   \<and> set (get_subscribe_channels subscribed)
       \<subseteq> set (get_subscribe_channels (step (Call_Subscribe ''channel:2'' recorder) subscribed))"
proof -
  have "fst (close_subscribes [Resume 0, Resume 0, Resume 0] subscribed) = Some (Inr ())"
    by code_simp
  then have h1: "close_subscribes [Resume 0, Resume 0, Resume 0] subscribed
     = (Some (Inr ()), snd (close_subscribes [Resume 0, Resume 0, Resume 0] subscribed))"
    by (metis prod.collapse)
  have h2: "\<not> is_shutdown (Call_Subscribe ''channel:2'' recorder)"
    by simp
  have h3: "get_subscribe_channels subscribed = [''channel:1'']"
    by code_simp
  note T = registry_emptied_only_by_shutdown [of "[Resume 0, Resume 0, Resume 0]" subscribed "Inr ()"
        "snd (close_subscribes [Resume 0, Resume 0, Resume 0] subscribed)"
        "Call_Subscribe ''channel:2'' recorder" subscribed]
  have a: "subscribes (snd (close_subscribes [Resume 0, Resume 0, Resume 0] subscribed)) = []
         \<and> subscribes_exit (snd (close_subscribes [Resume 0, Resume 0, Resume 0] subscribed)) = {}"
    using T h1 by iprover
  have b: "set (get_subscribe_channels subscribed)
       \<subseteq> set (get_subscribe_channels (step (Call_Subscribe ''channel:2'' recorder) subscribed))"
    using T h2 by iprover
  show ?thesis
    using h1 h2 h3 a b by iprover
qed


lemma cancel_task_length: "length (loop_tasks (snd (cancel_task t c))) = length (loop_tasks c)"
  by (simp add: cancel_task_def task_at_def)








text \<open>
  In every state that a client reaches from its construction, each handle in the
  registry names a task of the event loop.
\<close>

lemma wake_step_tasks: "length (loop_tasks (wake_step w c)) = length (loop_tasks c)"
  by (cases w) (auto simp: task_at_def)

lemma await_all_tasks:
  "length (loop_tasks (snd (await_all timed ts ws c))) = length (loop_tasks c)"
  by (induction timed ts ws c rule: await_all.induct)
    (auto simp: wake_step_tasks split: option.splits sum.splits list.splits)

lemma flag_fold_tasks: "loop_tasks (fold exit_flag_subscribe chs c) = loop_tasks c"
  by (induction chs arbitrary: c) (auto simp: exit_flag_subscribe_def)

lemma close_subscribes_handles: "handles_valid c \<Longrightarrow> handles_valid (snd (close_subscribes ws c))"
proof -
  assume v: "handles_valid c"
  let ?r = "await_all True (map snd (subscribes c)) ws
              (fold exit_flag_subscribe (map fst (subscribes c)) c)"
  have "subscribes (snd ?r) = subscribes c"
    by (simp add: await_all_subscribes flag_fold_subscribes)
  moreover have "length (loop_tasks (snd ?r)) = length (loop_tasks c)"
    by (simp add: await_all_tasks flag_fold_tasks)
  ultimately have "handles_valid (snd ?r)"
    using v by (simp add: handles_valid_def)
  then show ?thesis
    by (fastforce simp: close_subscribes_def handles_valid_def
        split: prod.splits option.splits sum.splits)
qed

lemma update_values: "snd ` set (AList.update k v al) \<subseteq> insert v (snd ` set al)"
  by (induction al) auto

lemma step_handles_valid: "handles_valid c \<Longrightarrow> handles_valid (step ev c)"
proof (cases ev)
  case Call_Open
  then show "handles_valid c \<Longrightarrow> ?thesis"
    by (auto simp: handles_valid_def open_connection_def split: sum.splits)
next
  case (Call_Subscribe ch cb)
  have "snd ` set (AList.update ch (length (loop_tasks c)) (subscribes c))
          \<subseteq> insert (length (loop_tasks c)) (snd ` set (subscribes c))"
    by (rule update_values)
  then show "handles_valid c \<Longrightarrow> ?thesis"
    using Call_Subscribe by (fastforce simp: handles_valid_def subscribe_def less_Suc_eq)
next
  case (Call_Cancel_Subscribe_Task ch)
  then show "handles_valid c \<Longrightarrow> ?thesis"
    by (auto simp: handles_valid_def cancel_subscribe_task_def cancel_task_def task_at_def
        split: option.splits)
next
  case (Call_Exit_Flag_Subscribe ch)
  then show "handles_valid c \<Longrightarrow> ?thesis"
    by (simp add: handles_valid_def exit_flag_subscribe_def)
next
  case Call_Exit_Flag_Subscribes
  then show "handles_valid c \<Longrightarrow> ?thesis"
    by (simp add: handles_valid_def exit_flag_subscribes_def flag_fold_subscribes flag_fold_tasks)
next
  case (Call_Wait_Subscribe ch ws)
  then show "handles_valid c \<Longrightarrow> ?thesis"
    by (simp add: handles_valid_def wait_subscribe_def await_all_subscribes await_all_tasks
        del: await_all.simps split: option.splits)
next
  case (Call_Close_Subscribes ws)
  then show "handles_valid c \<Longrightarrow> ?thesis"
    by (simp add: close_subscribes_handles)
next
  case (Call_Close ws)
  then show "handles_valid c \<Longrightarrow> ?thesis"
    using close_subscribes_handles [of c ws]
    by (fastforce simp: close_def handles_valid_def split: prod.splits option.splits sum.splits)
next
  case (Loop w)
  then show "handles_valid c \<Longrightarrow> ?thesis"
    by (simp add: handles_valid_def wake_step_subscribes wake_step_tasks)
qed

lemma reachable_handles_valid: "handles_valid (run evs (RedisCache h p pass pre kw))"
proof -
  have "handles_valid c \<Longrightarrow> handles_valid (fold step evs c)" for c
    by (induction evs arbitrary: c) (auto simp: step_handles_valid)
  then show ?thesis
    unfolding run_def by (simp add: handles_valid_def RedisCache_def)
qed

subsection \<open>Closing the client\<close>

text \<open>
  C9, where it fails. In the scenario \<open>broken\<close> the one registered task has failed with
  \<open>NotImplementedError\<close>. \<open>close\<close> on this open client awaits the task inside
  \<open>close_subscribes\<close>, which raises the task's exception after clearing the registry;
  \<open>close\<close> ends there, and the client is still open.
\<close>

theorem close_keeps_connection_counterexample:
  "is_open broken
   \<and> fst (close [] broken) = Some (Inl NotImplementedError)
   \<and> subscribes (snd (close [] broken)) = []
   \<and> is_open (snd (close [] broken))"
  by code_simp

text \<open>
  C9, amended. \<open>close\<close> on a client that is not open raises \<open>AssertionError\<close>
  and leaves the state unchanged. On an open client it runs \<open>close_subscribes\<close>
  first; when that returns, the registry is empty as asserted, the connection is handed to
  the driver's \<open>close()\<close> and the client is marked closed, so that \<open>is_open\<close> is
  false afterwards.
\<close>

theorem close_outcomes:
  "(\<not> is_open c \<longrightarrow> close ws c = (Some (Inl AssertionError), c))
   \<and> (is_open c \<and> close_subscribes ws c = (Some (Inr ()), c1) \<longrightarrow>
        subscribes c1 = []
        \<and> (\<exists>pool. redis c1 = Some pool
              \<and> close ws c = (Some (Inr ()), c1\<lparr>released := released c1 @ [pool], redis := None\<rparr>))
        \<and> \<not> is_open (snd (close ws c)))"
proof (intro conjI impI)
  assume "\<not> is_open c"
  then show "close ws c = (Some (Inl AssertionError), c)"
    by (simp add: close_def is_open_def)
next
  assume a: "is_open c \<and> close_subscribes ws c = (Some (Inr ()), c1)"
  then show "subscribes c1 = []"
    using close_subscribes_finished by blast
next
  assume a: "is_open c \<and> close_subscribes ws c = (Some (Inr ()), c1)"
  then have e: "subscribes c1 = []"
    using close_subscribes_finished by blast
  have "redis c1 = redis c"
    using close_subscribes_redis [of ws c] a by simp
  then obtain pool where p: "redis c1 = Some pool"
    using a by (auto simp: is_open_def)
  have "close ws c = (Some (Inr ()), c1\<lparr>released := released c1 @ [pool], redis := None\<rparr>)"
    using a e p by (simp add: close_def is_open_def)
  with p show "\<exists>pool. redis c1 = Some pool
              \<and> close ws c = (Some (Inr ()), c1\<lparr>released := released c1 @ [pool], redis := None\<rparr>)"
    by blast
next
  assume a: "is_open c \<and> close_subscribes ws c = (Some (Inr ()), c1)"
  then have e: "subscribes c1 = []"
    using close_subscribes_finished by blast
  have "redis c1 = redis c"
    using close_subscribes_redis [of ws c] a by simp
  then obtain pool where p: "redis c1 = Some pool"
    using a by (auto simp: is_open_def)
  show "\<not> is_open (snd (close ws c))"
    using a e p by (simp add: close_def is_open_def)
qed

theorem close_outcomes_witness:
  "\<not> is_open unopened
   \<and> close [] unopened = (Some (Inl AssertionError), unopened)
   \<and> is_open subscribed
   \<and> fst (close_subscribes [Resume 0, Resume 0, Resume 0] subscribed) = Some (Inr ())
   \<and> fst (close [Resume 0, Resume 0, Resume 0] subscribed) = Some (Inr ())
   \<and> \<not> is_open (snd (close [Resume 0, Resume 0, Resume 0] subscribed))"
proof -
  have h0: "\<not> is_open unopened"
    by (simp add: unopened_def RedisCache_def is_open_def)
  have h1: "is_open subscribed"
    by code_simp
  have h2: "fst (close_subscribes [Resume 0, Resume 0, Resume 0] subscribed) = Some (Inr ())"
    by code_simp
  then have h3: "close_subscribes [Resume 0, Resume 0, Resume 0] subscribed
     = (Some (Inr ()), snd (close_subscribes [Resume 0, Resume 0, Resume 0] subscribed))"
    by (metis prod.collapse)
  have a: "close [] unopened = (Some (Inl AssertionError), unopened)"
    using close_outcomes [of unopened "[]", THEN conjunct1] h0 by iprover
  note T = close_outcomes [of subscribed "[Resume 0, Resume 0, Resume 0]"
        "snd (close_subscribes [Resume 0, Resume 0, Resume 0] subscribed)", THEN conjunct2]
  have b: "(\<exists>pool. redis (snd (close_subscribes [Resume 0, Resume 0, Resume 0] subscribed)) = Some pool
              \<and> close [Resume 0, Resume 0, Resume 0] subscribed = (Some (Inr ()),
           (snd (close_subscribes [Resume 0, Resume 0, Resume 0] subscribed))
             \<lparr>released := released (snd (close_subscribes [Resume 0, Resume 0, Resume 0] subscribed)) @ [pool], redis := None\<rparr>))
        \<and> \<not> is_open (snd (close [Resume 0, Resume 0, Resume 0] subscribed))"
    using T h1 h3 by iprover
  then have c: "fst (close [Resume 0, Resume 0, Resume 0] subscribed) = Some (Inr ())"
    by auto
  show ?thesis
    using h0 a h1 h2 c b by iprover
qed

subsection \<open>Listener tasks\<close>

lemma fetched_append: "fetched (a @ b) = fetched a @ fetched b"
  by (induction a rule: fetched.induct) auto

lemma invoked_append: "invoked (a @ b) = invoked a @ invoked b"
  by (induction a rule: invoked.induct) auto

lemma completed_append: "completed (a @ b) = completed a @ completed b"
  by (induction a rule: completed.induct) auto

lemma unsupported_callback_step:
  assumes "\<not> iscoroutinefunction (callback l)" and "\<not> isfunction (callback l)"
    and "\<not> must_cancel l" and "channel l = m # ms"
    and "phase l = Consume_Fetch \<or> phase l = Drain_Fetch"
  shows "subscribe_task_step X l
           = (X, l\<lparr>channel := ms, trace := trace l @ [Fetched (Some m)],
                   phase := Done (Inl NotImplementedError)\<rparr>)"
  using assms by (auto simp: subscribe_task_step_def)

lemma listener_inv_new: "listener_inv [] (new_listener k cb flush)"
  by (simp add: listener_inv_def new_listener_def)

lemma listener_inv_receive: "listener_inv arr l \<Longrightarrow> listener_inv (arr @ [m]) (receive m l)"
  by (auto simp: listener_inv_def receive_def split: phase.splits)

lemma listener_inv_cancel: "listener_inv arr l \<Longrightarrow> listener_inv arr (snd (cancel l))"
  by (auto simp: listener_inv_def cancel_def split: phase.splits)

lemma listener_inv_step: "listener_inv arr l \<Longrightarrow> listener_inv arr (snd (subscribe_task_step X l))"
  by (cases "phase l"; cases "channel l"; cases "must_cancel l";
      cases "iscoroutinefunction (callback l)"; cases "isfunction (callback l)")
     (auto simp: listener_inv_def subscribe_task_step_def check_exit_def fetched_append invoked_append
           split: option.splits)


lemma listener_inv_event: "listener_inv arr l \<Longrightarrow> listener_inv (arr @ arrivals [ev]) (listener_event ev l)"
  by (cases ev) (simp_all add: listener_inv_step listener_inv_receive listener_inv_cancel)

lemma arrivals_Cons: "arrivals (ev # evs) = arrivals [ev] @ arrivals evs"
  by (cases ev) simp_all

lemma listener_inv_run: "listener_inv arr l \<Longrightarrow> listener_inv (arr @ arrivals evs) (listener_run evs l)"
  unfolding listener_run_def
proof (induction evs arbitrary: arr l)
  case Nil
  then show ?case by simp
next
  case (Cons ev evs)
  have "listener_inv ((arr @ arrivals [ev]) @ arrivals evs) (fold listener_event evs (listener_event ev l))"
    by (rule Cons.IH) (rule listener_inv_event [OF Cons.prems])
  then show ?case
    by (simp add: arrivals_Cons [of ev evs])
qed

text \<open>
  C4. Whatever happens to a listener task (resumed under any content of the exit set,
  messages received, cancellation requested), its trace keeps the single-flight
  discipline: \<open>get_message\<close> is never called while a callback invocation is in
  flight, and each invocation is for the message just fetched. The messages the callback
  was invoked with are an initial part of the messages received, in order of receipt.
\<close>

theorem single_flight_in_order:
  "single_flight (trace (listener_run evs (new_listener k cb flush)))
   \<and> (\<exists>rest. arrivals evs = invoked (trace (listener_run evs (new_listener k cb flush))) @ rest)"
proof -
  let ?l = "listener_run evs (new_listener k cb flush)"
  have i: "listener_inv (arrivals evs) ?l"
    using listener_inv_run [OF listener_inv_new, of evs k cb flush] by simp
  have 1: "single_flight (trace ?l)"
    using i by (cases "phase ?l") (auto simp: listener_inv_def single_flight_def)
  have "fetched (trace ?l) @ channel ?l = arrivals evs"
    using i by (simp add: listener_inv_def)
  moreover have "invoked (trace ?l) = fetched (trace ?l) \<or> (\<exists>m. fetched (trace ?l) = invoked (trace ?l) @ [m])"
    using i by (cases "phase ?l") (auto simp: listener_inv_def)
  ultimately have 2: "\<exists>rest. arrivals evs = invoked (trace ?l) @ rest"
    by (metis append.assoc)
  from 1 2 show ?thesis by blast
qed

lemma unsupported_inv_step: "unsupported_inv l \<Longrightarrow> unsupported_inv (snd (subscribe_task_step X l))"
  by (cases "phase l"; cases "channel l"; cases "must_cancel l")
     (auto simp: unsupported_inv_def subscribe_task_step_def check_exit_def fetched_append invoked_append
           split: option.splits)

lemma unsupported_inv_event: "unsupported_inv l \<Longrightarrow> unsupported_inv (listener_event ev l)"
  by (cases ev) (auto simp: unsupported_inv_step, auto simp: unsupported_inv_def receive_def cancel_def)

lemma unsupported_inv_run: "unsupported_inv l \<Longrightarrow> unsupported_inv (listener_run evs l)"
  unfolding listener_run_def
  by (induction evs arbitrary: l) (auto simp: unsupported_inv_event)

text \<open>
  C8. Let the callback be neither a coroutine function nor a function. A task that is
  resumed with a message to fetch, in the consume loop or in the drain loop and with no
  cancellation pending, ends with \<open>NotImplementedError\<close> as its result: the message
  is taken, the callback is not invoked, the exit set is not touched. In every run of
  such a task the callback is never invoked, and once a message has been fetched the task
  has failed with \<open>NotImplementedError\<close>.
\<close>

theorem unsupported_callback_fails:
  assumes "\<not> iscoroutinefunction cb" and "\<not> isfunction cb"
  shows "(callback l = cb \<and> \<not> must_cancel l \<and> channel l = m # ms
           \<and> (phase l = Consume_Fetch \<or> phase l = Drain_Fetch) \<longrightarrow>
          subscribe_task_step X l
           = (X, l\<lparr>channel := ms, trace := trace l @ [Fetched (Some m)],
                   phase := Done (Inl NotImplementedError)\<rparr>))
       \<and> invoked (trace (listener_run evs (new_listener k cb flush))) = []
       \<and> (fetched (trace (listener_run evs (new_listener k cb flush))) \<noteq> [] \<longrightarrow>
            phase (listener_run evs (new_listener k cb flush)) = Done (Inl NotImplementedError))"
proof -
  have "unsupported_inv (new_listener k cb flush)"
    using assms by (simp add: unsupported_inv_def new_listener_def)
  then have "unsupported_inv (listener_run evs (new_listener k cb flush))"
    by (rule unsupported_inv_run)
  then show ?thesis
    using assms unsupported_callback_step [of l m ms X] by (auto simp: unsupported_inv_def)
qed

theorem unsupported_callback_fails_witness:
  "\<not> iscoroutinefunction not_a_function \<and> \<not> isfunction not_a_function
   \<and> phase (snd (subscribe_task_step {}
        (receive msg1 (new_listener ''channel:1'' not_a_function True))))
       = Done (Inl NotImplementedError)
   \<and> phase (snd (subscribe_task_step {}
        ((receive msg1 (new_listener ''channel:1'' not_a_function True))\<lparr>phase := Drain_Fetch\<rparr>)))
       = Done (Inl NotImplementedError)
   \<and> invoked (trace (listener_run [L_Arrive msg1, L_Resume {}]
        (new_listener ''channel:1'' not_a_function True))) = []
   \<and> fetched (trace (listener_run [L_Arrive msg1, L_Resume {}]
        (new_listener ''channel:1'' not_a_function True))) = [msg1]
   \<and> phase (listener_run [L_Arrive msg1, L_Resume {}]
        (new_listener ''channel:1'' not_a_function True)) = Done (Inl NotImplementedError)"
proof -
  let ?l = "receive msg1 (new_listener ''channel:1'' not_a_function True)"
  let ?d = "?l\<lparr>phase := Drain_Fetch\<rparr>"
  let ?evs = "[L_Arrive msg1, L_Resume {}]"
  let ?r = "listener_run ?evs (new_listener ''channel:1'' not_a_function True)"
  have h1: "\<not> iscoroutinefunction not_a_function"
    by (simp add: not_a_function_def)
  have h2: "\<not> isfunction not_a_function"
    by (simp add: not_a_function_def)
  have l: "callback ?l = not_a_function \<and> \<not> must_cancel ?l \<and> channel ?l = msg1 # []
           \<and> (phase ?l = Consume_Fetch \<or> phase ?l = Drain_Fetch)"
    by (simp add: receive_def new_listener_def)
  have d: "callback ?d = not_a_function \<and> \<not> must_cancel ?d \<and> channel ?d = msg1 # []
           \<and> (phase ?d = Consume_Fetch \<or> phase ?d = Drain_Fetch)"
    by (simp add: receive_def new_listener_def)
  note T = unsupported_callback_fails [OF h1 h2, of ?l msg1 "[]" "{}" ?evs "''channel:1''" True]
  note U = unsupported_callback_fails [OF h1 h2, of ?d msg1 "[]" "{}" ?evs "''channel:1''" True]
  have a: "phase (snd (subscribe_task_step {} ?l)) = Done (Inl NotImplementedError)"
    using T [THEN conjunct1] l by simp
  have b: "phase (snd (subscribe_task_step {} ?d)) = Done (Inl NotImplementedError)"
    using U [THEN conjunct1] d by simp
  have c: "invoked (trace ?r) = []"
    using T by iprover
  have f: "fetched (trace ?r) = [msg1]"
    by (simp add: listener_run_def receive_def new_listener_def subscribe_task_step_def
        not_a_function_def)
  have g: "phase ?r = Done (Inl NotImplementedError)"
    using T [THEN conjunct2, THEN conjunct2] f by simp
  show ?thesis
    using h1 h2 a b c f g by iprover
qed

lemma resumes_add: "resumes (a + b) s = resumes b (resumes a s)"
  by (induction a arbitrary: s) simp_all

lemma resumes_done: "is_done l \<Longrightarrow> resumes n (X, l) = (X, l)"
  by (induction n) (auto simp: is_done_def subscribe_task_step_def split: phase.splits)

lemma drain_delivers_all:
  assumes "phase l = Drain_Fetch"
    and "iscoroutinefunction (callback l) \<or> isfunction (callback l)"
    and "\<forall>m \<in> set (channel l). raises (callback l) m = None"
    and "\<not> must_cancel l"
  shows "\<exists>n l'. n \<le> 2 * length (channel l) + 1 \<and> resumes n (X, l) = (X, l')
           \<and> phase l' = Done (Inr ()) \<and> channel l' = []
           \<and> completed (trace l') = completed (trace l) @ channel l"
  using assms
proof (induction ms \<equiv> "channel l" arbitrary: l)
  case Nil
  have "resumes 1 (X, l)
          = (X, l\<lparr>trace := trace l @ [Fetched None], phase := Done (Inr ())\<rparr>)"
    using Nil by (simp add: subscribe_task_step_def)
  then show ?case
    using Nil(1) [symmetric]
    by (intro exI [of _ 1] exI [of _ "l\<lparr>trace := trace l @ [Fetched None], phase := Done (Inr ())\<rparr>"])
       (simp add: completed_append)
next
  case (Cons m ms)
  have ch: "channel l = m # ms"
    using Cons.hyps(2) by simp
  have nr: "raises (callback l) m = None"
    using Cons.prems(3) ch by simp
  let ?l2 = "l\<lparr>channel := ms,
                 trace := trace l @ [Fetched (Some m), Invoked m, Completed m],
                 phase := Drain_Fetch\<rparr>"
  have "\<exists>k. k \<le> 2 \<and> resumes k (X, l) = (X, ?l2)"
  proof (cases "iscoroutinefunction (callback l)")
    case True
    have "resumes 2 (X, l) = (X, ?l2)"
      using True Cons.prems ch nr by (simp add: numeral_2_eq_2 subscribe_task_step_def)
    then show ?thesis by blast
  next
    case False
    have "resumes 1 (X, l) = (X, ?l2)"
      using False Cons.prems ch nr by (simp add: subscribe_task_step_def)
    then show ?thesis
      by (metis one_le_numeral)
  qed
  then obtain k where k: "k \<le> 2" "resumes k (X, l) = (X, ?l2)"
    by blast
  have "\<exists>n l'. n \<le> 2 * length (channel ?l2) + 1 \<and> resumes n (X, ?l2) = (X, l')
           \<and> phase l' = Done (Inr ()) \<and> channel l' = []
           \<and> completed (trace l') = completed (trace ?l2) @ channel ?l2"
    using Cons.prems ch by (intro Cons.hyps(1)) simp_all
  then obtain n l' where n: "n \<le> 2 * length ms + 1" "resumes n (X, ?l2) = (X, l')"
      "phase l' = Done (Inr ())" "channel l' = []"
      "completed (trace l') = completed (trace ?l2) @ ms"
    by auto
  have "resumes (k + n) (X, l) = (X, l')"
    using k n by (simp add: resumes_add)
  moreover have "k + n \<le> 2 * length (channel l) + 1"
    using k n ch by simp
  moreover have "completed (trace l') = completed (trace l) @ channel l"
    using n ch by (simp add: completed_append)
  ultimately show ?case
    using n by blast
qed

lemma reach_checkpoint:
  assumes "key l \<in> X"
    and "phase l = Consume_Fetch \<or> phase l = Consume_Call m0"
    and "iscoroutinefunction (callback l) \<or> isfunction (callback l)"
    and "\<forall>m \<in> set (pending l). raises (callback l) m = None"
    and "flush_remain_messages l"
    and "\<not> must_cancel l"
  shows "\<exists>n l1. n \<le> 2 \<and> resumes n (X, l) = (X - {key l}, l1) \<and> phase l1 = Drain_Fetch
           \<and> callback l1 = callback l \<and> \<not> must_cancel l1 \<and> key l1 = key l
           \<and> completed (trace l1) @ channel l1 = completed (trace l) @ pending l
           \<and> set (channel l1) \<subseteq> set (pending l)
           \<and> n + 2 * length (channel l1) \<le> 2 * length (pending l) + 1"
proof -
  consider (call) "phase l = Consume_Call m0"
    | (empty) "phase l = Consume_Fetch" "channel l = []"
    | (async) m ms where "phase l = Consume_Fetch" "channel l = m # ms" "iscoroutinefunction (callback l)"
    | (sync) m ms where "phase l = Consume_Fetch" "channel l = m # ms" "\<not> iscoroutinefunction (callback l)"
    using assms(2) by (cases "channel l") auto
  then show ?thesis
  proof cases
    case call
    let ?l1 = "l\<lparr>trace := trace l @ [Completed m0], phase := Drain_Fetch\<rparr>"
    have "resumes 1 (X, l) = (X - {key l}, ?l1)"
      using call assms by (simp add: subscribe_task_step_def check_exit_def pending_def)
    then show ?thesis
      using call assms
      by (intro exI [of _ 1] exI [of _ ?l1]) (auto simp: pending_def completed_append)
  next
    case empty
    let ?l1 = "l\<lparr>trace := trace l @ [Fetched None], phase := Drain_Fetch\<rparr>"
    have "resumes 1 (X, l) = (X - {key l}, ?l1)"
      using empty assms by (simp add: subscribe_task_step_def check_exit_def pending_def)
    then show ?thesis
      using empty assms
      by (intro exI [of _ 1] exI [of _ ?l1]) (auto simp: pending_def completed_append)
  next
    case async
    let ?l1 = "l\<lparr>channel := ms, trace := trace l @ [Fetched (Some m), Invoked m, Completed m],
                  phase := Drain_Fetch\<rparr>"
    have "resumes 2 (X, l) = (X - {key l}, ?l1)"
      using async assms
      by (simp add: numeral_2_eq_2 subscribe_task_step_def check_exit_def pending_def)
    then show ?thesis
      using async assms
      by (intro exI [of _ 2] exI [of _ ?l1]) (auto simp: pending_def completed_append)
  next
    case sync
    let ?l1 = "l\<lparr>channel := ms, trace := trace l @ [Fetched (Some m), Invoked m, Completed m],
                  phase := Drain_Fetch\<rparr>"
    have "resumes 1 (X, l) = (X - {key l}, ?l1)"
      using sync assms by (simp add: subscribe_task_step_def check_exit_def pending_def)
    then show ?thesis
      using sync assms
      by (intro exI [of _ 1] exI [of _ ?l1]) (auto simp: pending_def completed_append)
  qed
qed


text \<open>
  C2. Take a listener task in its consume loop (about to get the result of
  \<open>get_message\<close>, or waiting for the callback on \<open>m0\<close>) while its key is in the
  exit-request set, with a callback of a supported kind that does not raise on the
  messages the task holds, with \<open>flush_remain_messages\<close> on and no cancellation
  pending. Then after at most two resumptions, at the first check of the flag, the key is
  out of the set and the task is in the drain loop; and resumed often enough
  (\<open>2 * length (pending l) + 2\<close> times suffice) the task has returned, nothing is left
  unfetched, and the callback has returned for every message the task held, in order.
\<close>

theorem graceful_exit_drains:
  assumes "key l \<in> X"
    and "phase l = Consume_Fetch \<or> phase l = Consume_Call m0"
    and "iscoroutinefunction (callback l) \<or> isfunction (callback l)"
    and "\<forall>m \<in> set (pending l). raises (callback l) m = None"
    and "flush_remain_messages l"
    and "\<not> must_cancel l"
  shows "(\<exists>n \<le> 2. fst (resumes n (X, l)) = X - {key l}
            \<and> phase (snd (resumes n (X, l))) = Drain_Fetch)
       \<and> (\<exists>l'. resumes (2 * length (pending l) + 2) (X, l) = (X - {key l}, l')
            \<and> phase l' = Done (Inr ()) \<and> channel l' = []
            \<and> completed (trace l') = completed (trace l) @ pending l)"
proof -
  obtain n l1 where c: "n \<le> 2" "resumes n (X, l) = (X - {key l}, l1)" "phase l1 = Drain_Fetch"
      "callback l1 = callback l" "\<not> must_cancel l1"
      "completed (trace l1) @ channel l1 = completed (trace l) @ pending l"
      "set (channel l1) \<subseteq> set (pending l)"
      "n + 2 * length (channel l1) \<le> 2 * length (pending l) + 1"
    using reach_checkpoint [OF assms] by blast
  have "\<exists>k l'. k \<le> 2 * length (channel l1) + 1 \<and> resumes k (X - {key l}, l1) = (X - {key l}, l')
           \<and> phase l' = Done (Inr ()) \<and> channel l' = []
           \<and> completed (trace l') = completed (trace l1) @ channel l1"
    using c assms(3,4) by (intro drain_delivers_all) auto
  then obtain k l' where d: "k \<le> 2 * length (channel l1) + 1"
      "resumes k (X - {key l}, l1) = (X - {key l}, l')"
      "phase l' = Done (Inr ())" "channel l' = []"
      "completed (trace l') = completed (trace l1) @ channel l1"
    by blast
  have le: "n + k \<le> 2 * length (pending l) + 2"
    using c(8) d(1) by simp
  have "resumes (n + k) (X, l) = (X - {key l}, l')"
    using c(2) d(2) by (simp add: resumes_add)
  moreover have "is_done l'"
    using d(3) by (simp add: is_done_def)
  ultimately have "resumes ((n + k) + (2 * length (pending l) + 2 - (n + k))) (X, l) = (X - {key l}, l')"
    by (simp only: resumes_add resumes_done)
  then have "resumes (2 * length (pending l) + 2) (X, l) = (X - {key l}, l')"
    using le by simp
  then have 2: "\<exists>l'. resumes (2 * length (pending l) + 2) (X, l) = (X - {key l}, l')
            \<and> phase l' = Done (Inr ()) \<and> channel l' = []
            \<and> completed (trace l') = completed (trace l) @ pending l"
    using d c(6) by auto
  have 1: "\<exists>n \<le> 2. fst (resumes n (X, l)) = X - {key l}
            \<and> phase (snd (resumes n (X, l))) = Drain_Fetch"
    using c(1,2,3) by (intro exI [of _ n]) simp
  from 1 2 show ?thesis by blast
qed

lemma loaded_eq:
  "loaded = \<lparr>key = ''channel:1'', channel = [msg1, msg2], callback = recorder,
             flush_remain_messages = True, phase = Consume_Fetch, must_cancel = False,
             trace = []\<rparr>"
  by (simp add: loaded_def listener_run_def new_listener_def receive_def)

theorem graceful_exit_drains_witness:
  "key loaded \<in> {''channel:1''} \<and> phase loaded = Consume_Fetch
   \<and> iscoroutinefunction (callback loaded)
   \<and> pending loaded = [msg1, msg2]
   \<and> raises (callback loaded) msg1 = None \<and> raises (callback loaded) msg2 = None
   \<and> flush_remain_messages loaded \<and> \<not> must_cancel loaded
   \<and> (\<exists>l'. resumes 6 ({''channel:1''}, loaded) = ({}, l')
         \<and> phase l' = Done (Inr ()) \<and> channel l' = []
         \<and> completed (trace l') = [msg1, msg2])"
proof -
  have h1: "key loaded \<in> {''channel:1''}"
    by (simp add: loaded_eq)
  have h2: "phase loaded = Consume_Fetch \<or> phase loaded = Consume_Call msg1"
    by (simp add: loaded_eq)
  have h3: "iscoroutinefunction (callback loaded) \<or> isfunction (callback loaded)"
    by (simp add: loaded_eq recorder_def)
  have h4: "\<forall>m \<in> set (pending loaded). raises (callback loaded) m = None"
    by (simp add: loaded_eq recorder_def)
  have h5: "flush_remain_messages loaded"
    by (simp add: loaded_eq)
  have h6: "\<not> must_cancel loaded"
    by (simp add: loaded_eq)
  have p: "pending loaded = [msg1, msg2]" "completed (trace loaded) = []" "key loaded = ''channel:1''"
    by (simp_all add: loaded_eq pending_def)
  have "\<exists>l'. resumes 6 ({''channel:1''}, loaded) = ({}, l')
         \<and> phase l' = Done (Inr ()) \<and> channel l' = []
         \<and> completed (trace l') = [msg1, msg2]"
    using graceful_exit_drains [OF h1 h2 h3 h4 h5 h6, THEN conjunct2] by (simp add: p)
  moreover have "phase loaded = Consume_Fetch" "iscoroutinefunction (callback loaded)"
    by (simp_all add: loaded_eq recorder_def)
  moreover have "raises (callback loaded) msg1 = None" "raises (callback loaded) msg2 = None"
    by (simp_all add: loaded_eq recorder_def)
  ultimately show ?thesis
    using h1 h5 h6 p(1) by blast
qed

subsection \<open>Pool size\<close>

text \<open>
  C6, at the value \<open>None\<close>. \<open>int(None)\<close> raises \<open>TypeError\<close>, which
  \<open>_get_max_connections\<close> does not catch: the method raises instead of falling back
  to the default pool size, and so does \<open>open\<close>.
\<close>

theorem max_connections_none_raises:
  "get_max_connections (RedisCache h p pass pre [(''max_connections'', PyNone)])
      DEFAULT_MAX_CONNECTIONS = Inl TypeError
   \<and> open_connection (RedisCache h p pass pre [(''max_connections'', PyNone)]) = Inl TypeError"
  by (simp add: open_connection_def get_max_connections_def RedisCache_def dict_get_def
      EX_KEY_MAX_CONNECTIONS_def)

lemma py_int_str_error: "py_int_str s = Inl e \<Longrightarrow> e = ValueError"
  by (auto simp: py_int_str_def split: list.splits if_splits option.splits)

lemma max_connections_fallback:
  "map_of (kwargs c) EX_KEY_MAX_CONNECTIONS = None \<Longrightarrow>
     get_max_connections c DEFAULT_MAX_CONNECTIONS = Inr 10"
  "map_of (kwargs c) EX_KEY_MAX_CONNECTIONS = Some (PyInt n) \<Longrightarrow>
     get_max_connections c DEFAULT_MAX_CONNECTIONS = Inr n"
  "map_of (kwargs c) EX_KEY_MAX_CONNECTIONS = Some (PyStr s) \<Longrightarrow>
     get_max_connections c DEFAULT_MAX_CONNECTIONS
       = Inr (case py_int_str s of Inr k \<Rightarrow> k | Inl e \<Rightarrow> 10)"
  by (auto simp: get_max_connections_def dict_get_def DEFAULT_MAX_CONNECTIONS_def
      split: sum.splits dest: py_int_str_error)

lemma max_connections_examples:
  "get_max_connections (RedisCache h p pass pre [(''max_connections'', PyStr ''abc'')])
      DEFAULT_MAX_CONNECTIONS = Inr 10"
  "get_max_connections (RedisCache h p pass pre [(''max_connections'', PyStr ''32'')])
      DEFAULT_MAX_CONNECTIONS = Inr 32"
  by (simp_all add: get_max_connections_def RedisCache_def dict_get_def
      EX_KEY_MAX_CONNECTIONS_def DEFAULT_MAX_CONNECTIONS_def py_int_str_def strip_def
      isspace_def parse_decimal_def isdigit_def digit_value_def)

subsection \<open>Bulk clear\<close>

text \<open>
  What \<open>clear\<close> does achieve. A key that the pattern does not match is never deleted,
  and the final scan pass from cursor 0 is empty. When the whole keyspace fits into one
  page, \<open>clear\<close> deletes exactly the keys that match the pattern; for a prefix without
  pattern characters these are the keys that start with the prefix.
\<close>

lemma glob_star: "glob_match ''*'' k"
  by (induction k) simp_all

lemma glob_literal_prefix:
  "CHR ''*'' \<notin> set pre \<Longrightarrow> CHR ''?'' \<notin> set pre \<Longrightarrow>
   glob_match (pre @ ''*'') k = (take (length pre) k = pre)"
proof (induction pre arbitrary: k)
  case Nil
  then show ?case by (simp add: glob_star)
next
  case (Cons p pre)
  then show ?case by (cases k) auto
qed

lemma clear_result:
  "clear c st = Inr st' \<Longrightarrow>
   set st' \<subseteq> set st
   \<and> (\<forall>kv \<in> set st. \<not> glob_match (prefix c @ ''*'') (fst kv) \<longrightarrow> kv \<in> set st')
   \<and> snd (redis_scan st' 0 (prefix c @ ''*'') CLEAR_SCAN_STEP) = []"
proof (induction c st rule: clear.induct)
  case (1 c st)
  let ?ks = "snd (redis_scan st 0 (prefix c @ ''*'') CLEAR_SCAN_STEP)"
  have o: "redis c \<noteq> None"
    using "1.prems" by (subst (asm) clear.simps) (auto split: if_splits)
  show ?case
  proof (cases "?ks = []")
    case True
    then have "st' = st"
      using "1.prems" o by (subst (asm) clear.simps) simp
    then show ?thesis using True by simp
  next
    case False
    then have r: "clear c (redis_delete st ?ks) = Inr st'"
      using "1.prems" o by (subst (asm) clear.simps) simp
    note IH = "1.IH" [OF o False r]
    have m: "\<forall>k \<in> set ?ks. glob_match (prefix c @ ''*'') k"
      by (simp add: redis_scan_def)
    have "set (redis_delete st ?ks) \<subseteq> set st"
      by (auto simp: redis_delete_def)
    moreover have "\<forall>kv \<in> set st. \<not> glob_match (prefix c @ ''*'') (fst kv) \<longrightarrow>
                     kv \<in> set (redis_delete st ?ks)"
      using m by (auto simp: redis_delete_def)
    ultimately show ?thesis
      using IH by blast
  qed
qed

lemma scan_whole_store: "length s \<le> CLEAR_SCAN_STEP \<Longrightarrow>
      snd (redis_scan s 0 pat CLEAR_SCAN_STEP) = filter (glob_match pat) (map fst s)"
  by (simp add: redis_scan_def)

lemma delete_matching: "redis_delete st (filter (glob_match pat) (map fst st)) = filter (\<lambda>kv. \<not> glob_match pat (fst kv)) st"
  unfolding redis_delete_def by (rule filter_cong) auto

lemma filter_fits_page: "length st \<le> CLEAR_SCAN_STEP \<Longrightarrow> length (filter (\<lambda>kv. \<not> glob_match pat (fst kv)) st) \<le> CLEAR_SCAN_STEP"
  by (meson le_trans length_filter_le)

lemma none_left_matching: "filter (glob_match pat) (map fst (filter (\<lambda>kv. \<not> glob_match pat (fst kv)) st)) = []"
  by (induction st) auto

lemma filter_nothing: "filter (glob_match pat) (map fst st) = [] \<Longrightarrow> filter (\<lambda>kv. \<not> glob_match pat (fst kv)) st = st"
  by (induction st) (auto split: if_splits)


lemma clear_nothing_left:
  assumes "redis c \<noteq> None" and "length st \<le> CLEAR_SCAN_STEP"
  shows "clear c (filter (\<lambda>kv. \<not> glob_match (prefix c @ ''*'') (fst kv)) st)
       = Inr (filter (\<lambda>kv. \<not> glob_match (prefix c @ ''*'') (fst kv)) st)"
  using assms(1) by (subst clear.simps) (auto simp: scan_whole_store [OF filter_fits_page [OF assms(2)]] none_left_matching)

lemma clear_small_store:
  assumes "redis c \<noteq> None" and "length st \<le> CLEAR_SCAN_STEP"
  shows "clear c st = Inr (filter (\<lambda>kv. \<not> glob_match (prefix c @ ''*'') (fst kv)) st)"
proof (cases "filter (glob_match (prefix c @ ''*'')) (map fst st) = []")
  case True
  have "clear c st = Inr st"
    using assms(1) True by (subst clear.simps) (auto simp: scan_whole_store [OF assms(2)])
  then show ?thesis
    using filter_nothing [OF True] by simp
next
  case False
  have "clear c st = clear c (filter (\<lambda>kv. \<not> glob_match (prefix c @ ''*'') (fst kv)) st)"
    using assms(1) False by (subst clear.simps) (auto simp: scan_whole_store [OF assms(2)] delete_matching)
  then show ?thesis
    using clear_nothing_left [OF assms] by simp
qed

lemma clear_small_store_literal:
  assumes "redis c \<noteq> None" and "length st \<le> CLEAR_SCAN_STEP"
    and "CHR ''*'' \<notin> set (prefix c)" and "CHR ''?'' \<notin> set (prefix c)"
  shows "clear c st = Inr (filter (\<lambda>kv. take (length (prefix c)) (fst kv) \<noteq> prefix c) st)"
  using clear_small_store [OF assms(1,2)] glob_literal_prefix [OF assms(3,4)] by simp

lemma clear_blind:
  assumes "redis c \<noteq> None" and "length page = CLEAR_SCAN_STEP"
    and "\<forall>kv \<in> set page. \<not> glob_match (prefix c @ ''*'') (fst kv)"
  shows "clear c (page @ rest) = Inr (page @ rest)"
proof -
  have "snd (redis_scan (page @ rest) 0 (prefix c @ ''*'') CLEAR_SCAN_STEP)
          = filter (glob_match (prefix c @ ''*'')) (map fst page)"
    using assms(2) by (simp add: redis_scan_def)
  also have "\<dots> = []"
    using assms(3) by (simp add: filter_empty_conv)
  finally show ?thesis
    using assms(1) by (subst clear.simps) simp
qed

lemma crowded_distinct: "distinct (map fst crowded)"
proof -
  have "inj_on (\<lambda>n. ''other:'' @ replicate n CHR ''x'') (set [0..<1024])"
    by (rule inj_onI) (simp add: replicate_eq_replicate)
  then have "distinct (map (\<lambda>n. ''other:'' @ replicate n CHR ''x'') [0..<1024])"
    by (simp add: distinct_map)
  moreover have "map fst foreign_page = map (\<lambda>n. ''other:'' @ replicate n CHR ''x'') [0..<1024]"
    by (simp add: foreign_page_def comp_def)
  ultimately show ?thesis
    by (auto simp: crowded_def)
qed

text \<open>
  C5, at the store \<open>crowded\<close>. The first page of 1024 keys holds no key of the
  \<open>tester:\<close> namespace, so the first scan pass from cursor 0 yields no keys and
  \<open>clear\<close> stops: the store is unchanged and the key \<open>tester:a\<close>, which carries
  the client's prefix, still exists.
\<close>

theorem clear_stops_at_empty_first_page:
  "is_open tester \<and> prefix tester = ''tester:'' \<and> distinct (map fst crowded)
   \<and> clear tester crowded = Inr crowded
   \<and> redis_exists crowded [''tester:a''] = 1"
proof -
  have o: "redis tester \<noteq> None" and p: "prefix tester = ''tester:''"
    by (simp_all add: tester_eq RedisCache_def)
  have l: "length foreign_page = CLEAR_SCAN_STEP"
    by (simp add: foreign_page_def CLEAR_SCAN_STEP_def)
  have n: "\<forall>kv \<in> set foreign_page. \<not> glob_match (prefix tester @ ''*'') (fst kv)"
    by (auto simp: foreign_page_def p)
  have "clear tester crowded = Inr crowded"
    unfolding crowded_def by (rule clear_blind [OF o l n])
  moreover have "redis_exists crowded [''tester:a''] = 1"
    by (simp add: redis_exists_def crowded_def)
  ultimately show ?thesis
    using o p crowded_distinct by (simp add: is_open_def)
qed

text \<open>
  With the prefix \<open>a?\<close> the pattern is \<open>a?*\<close>, and \<open>clear\<close> deletes the key
  \<open>abk\<close>, which does not start with the prefix.
\<close>

lemma clear_wildcard_prefix:
  "prefix wild = ''a?'' \<and> clear wild [(''a?k'', ''1''), (''abk'', ''2'')] = Inr []"
  by code_simp

end
